theory Spec2Isabelle
  imports Complex_Main "HOL-Library.AList"
begin

section \<open>Quorum expressions (quorums.py)\<close>

text \<open>
  Python exceptions are values: a function that may raise returns \<open>error + 'a\<close>,
  with \<open>Inl\<close> the exception. Python floats are modelled as exact reals.
\<close>

datatype error = ValueError | TypeError | AssertionError | ZeroDivisionError | KeyError

text \<open>
  A \<open>Node\<close> object. The class defines neither \<open>__eq__\<close> nor \<open>__hash__\<close>, so Python
  compares and hashes nodes by object identity; \<open>oid\<close> is that identity (the address
  of the object), and \<open>node_x\<close> is the attribute \<open>x\<close>.
\<close>

record 'a node =
  oid :: nat
  node_x :: 'a
  read_capacity :: real
  write_capacity :: real

text \<open>\<open>Node.__init__\<close>; \<open>addr\<close> is the identity of the object being created.\<close>

definition Node_init ::
  "nat \<Rightarrow> 'a \<Rightarrow> real option \<Rightarrow> real option \<Rightarrow> real option \<Rightarrow> error + 'a node" where
  "Node_init addr x capacity rc wc =
     (case (capacity, rc, wc) of
        (None, None, None) \<Rightarrow>
          Inr \<lparr>oid = addr, node_x = x, read_capacity = 1, write_capacity = 1\<rparr>
      | (Some c, None, None) \<Rightarrow>
          Inr \<lparr>oid = addr, node_x = x, read_capacity = c, write_capacity = c\<rparr>
      | (None, Some r, Some w) \<Rightarrow>
          Inr \<lparr>oid = addr, node_x = x, read_capacity = r, write_capacity = w\<rparr>
      | _ \<Rightarrow> Inl ValueError)"

text \<open>The default \<open>__eq__\<close> of a class that does not override it: identity.\<close>

definition node_eq :: "'a node \<Rightarrow> 'a node \<Rightarrow> bool" where
  "node_eq a b = (oid a = oid b)"

datatype 'a expr =
    Node "'a node"
  | Or "'a expr list"
  | And "'a expr list"
  | Choose int "'a expr list"

text \<open>The constructors \<open>Or.__init__\<close>, \<open>And.__init__\<close> and \<open>Choose.__init__\<close>.\<close>

definition Or_init :: "'a expr list \<Rightarrow> error + 'a expr" where
  "Or_init es = (if length es = 0 then Inl ValueError else Inr (Or es))"

definition And_init :: "'a expr list \<Rightarrow> error + 'a expr" where
  "And_init es = (if length es = 0 then Inl ValueError else Inr (And es))"

definition Choose_init :: "int \<Rightarrow> 'a expr list \<Rightarrow> error + 'a expr" where
  "Choose_init k es =
     (if k \<le> 0 \<or> k > int (length es) then Inl ValueError else Inr (Choose k es))"

text \<open>
  The expressions the constructors can return: every \<open>Or\<close> and \<open>And\<close> has a child,
  every \<open>Choose\<close> has \<open>1 \<le> k \<le> len(es)\<close>, and the children are built the same way.
\<close>

fun constructed :: "'a expr \<Rightarrow> bool" where
  "constructed (Node n) = True"
| "constructed (Or es) = (es \<noteq> [] \<and> list_all constructed es)"
| "constructed (And es) = (es \<noteq> [] \<and> list_all constructed es)"
| "constructed (Choose k es) = (1 \<le> k \<and> k \<le> int (length es) \<and> list_all constructed es)"

text \<open>
  A list comprehension whose elements may raise: the first exception, in list
  order, is the result.
\<close>

fun collect :: "(error + 'b) list \<Rightarrow> error + 'b list" where
  "collect [] = Inr []"
| "collect (r # rs) =
     (case r of
        Inl e \<Rightarrow> Inl e
      | Inr v \<Rightarrow> (case collect rs of Inl e \<Rightarrow> Inl e | Inr vs \<Rightarrow> Inr (v # vs)))"

text \<open>\<open>set.union(*args)\<close>: a TypeError without arguments.\<close>

fun set_union :: "'a set list \<Rightarrow> error + 'a set" where
  "set_union [] = Inl TypeError"
| "set_union (s # ss) = Inr (s \<union> \<Union> (set ss))"

text \<open>
  \<open>itertools.combinations(xs, r)\<close> for \<open>r \<ge> 0\<close>, in its order (lexicographic in the
  positions); \<open>itertools.product\<close> is \<^const>\<open>product_lists\<close>.
\<close>

fun combinations :: "'a list \<Rightarrow> nat \<Rightarrow> 'a list list" where
  "combinations xs 0 = [[]]"
| "combinations [] (Suc r) = []"
| "combinations (x # xs) (Suc r) =
     map (Cons x) (combinations xs r) @ combinations xs (Suc r)"

text \<open>\<open>is_quorum\<close> of the four classes.\<close>

fun is_quorum :: "'a expr \<Rightarrow> 'a set \<Rightarrow> bool" where
  "is_quorum (Node n) xs = (node_x n \<in> xs)"
| "is_quorum (Or es) xs = list_ex (\<lambda>e. is_quorum e xs) es"
| "is_quorum (And es) xs = list_all (\<lambda>e. is_quorum e xs) es"
| "is_quorum (Choose k es) xs =
     (sum_list (map (\<lambda>e. if is_quorum e xs then 1 else 0) es) \<ge> k)"

text \<open>
  \<open>quorums\<close>, as the list of the sets the generator yields (\<open>list(e.quorums())\<close>),
  or the exception raised while it runs.
\<close>

definition unions_of_product :: "'a set list list \<Rightarrow> error + 'a set list" where
  "unions_of_product qss = collect (map set_union (product_lists qss))"

function quorums :: "'a expr \<Rightarrow> error + 'a set list" where
  "quorums (Node n) = Inr [{node_x n}]"
| "quorums (Or es) =
     (case collect (map quorums es) of
        Inl err \<Rightarrow> Inl err
      | Inr qss \<Rightarrow> Inr (concat qss))"
| "quorums (And es) =
     (case collect (map quorums es) of
        Inl err \<Rightarrow> Inl err
      | Inr qss \<Rightarrow> unions_of_product qss)"
| "quorums (Choose k es) =
     (if k < 0 then Inl ValueError
      else
        (case collect (map (\<lambda>combo.
                 (case collect (map quorums combo) of
                    Inl err \<Rightarrow> Inl err
                  | Inr qss \<Rightarrow> unions_of_product qss))
               (combinations es (nat k))) of
           Inl err \<Rightarrow> Inl err
         | Inr yss \<Rightarrow> Inr (concat yss)))"
  by pat_completeness auto
termination
proof (relation "measure size")
  have sub: "c \<in> set (combinations ys r) \<Longrightarrow> set c \<subseteq> set ys"
    for c :: "'a expr list" and ys r
    by (induction ys r arbitrary: c rule: combinations.induct) fastforce+
  have less: "e \<in> set ys \<Longrightarrow> size e < Suc (size_list size ys)" for e :: "'a expr" and ys
    by (induction ys) auto
  show "wf (measure size)" by simp
  show "\<And>es e. e \<in> set es \<Longrightarrow> (e :: 'a expr, Or es) \<in> measure size"
    by (simp add: less)
  show "\<And>es e. e \<in> set es \<Longrightarrow> (e :: 'a expr, And es) \<in> measure size"
    by (simp add: less)
  show "\<And>k es c e. \<not> k < 0 \<Longrightarrow> c \<in> set (combinations es (nat k)) \<Longrightarrow> e \<in> set c
          \<Longrightarrow> (e :: 'a expr, Choose k es) \<in> measure size"
    using sub by (auto intro!: less)
qed

text \<open>\<open>dual\<close> of the four classes, each through the constructor it calls.\<close>

fun dual :: "'a expr \<Rightarrow> error + 'a expr" where
  "dual (Node n) = Inr (Node n)"
| "dual (Or es) =
     (case collect (map dual es) of Inl err \<Rightarrow> Inl err | Inr ds \<Rightarrow> And_init ds)"
| "dual (And es) =
     (case collect (map dual es) of Inl err \<Rightarrow> Inl err | Inr ds \<Rightarrow> Or_init ds)"
| "dual (Choose k es) =
     (case collect (map dual es) of
        Inl err \<Rightarrow> Inl err
      | Inr ds \<Rightarrow> Choose_init (int (length es) - k + 1) ds)"

text \<open>\<open>nodes\<close>: a set of \<open>Node\<close> objects.\<close>

fun nodes :: "'a expr \<Rightarrow> error + 'a node set" where
  "nodes (Node n) = Inr {n}"
| "nodes (Or es) =
     (case collect (map nodes es) of Inl err \<Rightarrow> Inl err | Inr ns \<Rightarrow> set_union ns)"
| "nodes (And es) =
     (case collect (map nodes es) of Inl err \<Rightarrow> Inl err | Inr ns \<Rightarrow> set_union ns)"
| "nodes (Choose k es) =
     (case collect (map nodes es) of Inl err \<Rightarrow> Inl err | Inr ns \<Rightarrow> set_union ns)"

text \<open>
  The \<open>Node\<close> objects an expression contains: its leaves, each an object with its own
  identity.
\<close>

fun contains_node :: "'a expr \<Rightarrow> 'a node \<Rightarrow> bool" where
  "contains_node (Node n) m = (n = m)"
| "contains_node (Or es) m = list_ex (\<lambda>e. contains_node e m) es"
| "contains_node (And es) m = list_ex (\<lambda>e. contains_node e m) es"
| "contains_node (Choose k es) m = list_ex (\<lambda>e. contains_node e m) es"

text \<open>The helper \<open>choose\<close> (the name is taken by the binomial coefficient) and \<open>majority\<close>.\<close>

definition choose_expr :: "int \<Rightarrow> 'a expr list \<Rightarrow> error + 'a expr" where
  "choose_expr k es =
     (if k = 1 then Or_init es
      else if k = int (length es) then And_init es
      else Choose_init k es)"

definition majority :: "'a expr list \<Rightarrow> error + 'a expr" where
  "majority es = choose_expr (int (length es) div 2 + 1) es"

section \<open>Distributions (quorums.py)\<close>

text \<open>
  The union type \<open>Distribution\<close>; \<open>DOther\<close> stands for a value of any other type,
  which the last branch of \<open>_canonicalize_distribution\<close> rejects. A \<open>dict\<close> is an
  association list in insertion order, its keys distinct.
\<close>

datatype distribution =
    DInt int
  | DFloat real
  | DDict "(real \<times> real) list"
  | DList "(real \<times> real) list"
  | DOther

text \<open>
  A dict comprehension \<open>{k: v for (k, v) in kvs}\<close>: a key met again keeps its place and
  takes the new value.
\<close>

definition dict_of :: "('k \<times> 'v) list \<Rightarrow> ('k \<times> 'v) list" where
  "dict_of kvs = fold (\<lambda>(k, v) d. AList.update k v d) kvs []"

function canonicalize_distribution :: "distribution \<Rightarrow> error + (real \<times> real) list" where
  "canonicalize_distribution (DInt d) =
     (if d < 0 \<or> d > 1 then Inl ValueError else Inr [(real_of_int d, 1)])"
| "canonicalize_distribution (DFloat d) =
     (if d < 0 \<or> d > 1 then Inl ValueError else Inr [(d, 1)])"
| "canonicalize_distribution (DDict d) =
     (if length d = 0 then Inl ValueError
      else if list_ex (\<lambda>weight. weight < 0) (map snd d) then Inl ValueError
      else
        (let total_weight = sum_list (map snd d) in
         if total_weight = 0 then Inl ValueError
         else Inr (dict_of (map (\<lambda>(f, weight). (f, weight / total_weight))
                              (filter (\<lambda>(f, weight). weight > 0) d)))))"
| "canonicalize_distribution (DList d) = canonicalize_distribution (DDict (dict_of d))"
| "canonicalize_distribution DOther = Inl ValueError"
  by pat_completeness auto
termination
  by (relation "measure (\<lambda>d. case d of DList _ \<Rightarrow> 1 | _ \<Rightarrow> 0)") auto

section \<open>Quorum systems (quorums.py)\<close>

record 'a quorum_system =
  reads :: "'a expr"
  writes :: "'a expr"

text \<open>
  \<open>QuorumSystem.__init__\<close>. With both sides given, \<open>itertools.product\<close> first runs
  both generators to their end, then \<open>all\<close> tests the pairs.
\<close>

definition QuorumSystem_init ::
  "'a expr option \<Rightarrow> 'a expr option \<Rightarrow> error + 'a quorum_system" where
  "QuorumSystem_init r w =
     (case (r, w) of
        (Some rs, Some ws) \<Rightarrow>
          (case quorums rs of
             Inl err \<Rightarrow> Inl err
           | Inr rqs \<Rightarrow>
               (case quorums ws of
                  Inl err \<Rightarrow> Inl err
                | Inr wqs \<Rightarrow>
                    if list_all (\<lambda>(rq, wq). card (rq \<inter> wq) > 0) (List.product rqs wqs)
                    then Inr \<lparr>reads = rs, writes = ws\<rparr>
                    else Inl AssertionError))
      | (Some rs, None) \<Rightarrow>
          (case dual rs of
             Inl err \<Rightarrow> Inl err
           | Inr ws \<Rightarrow> Inr \<lparr>reads = rs, writes = ws\<rparr>)
      | (None, Some ws) \<Rightarrow>
          (case dual ws of
             Inl err \<Rightarrow> Inl err
           | Inr rs \<Rightarrow> Inr \<lparr>reads = rs, writes = ws\<rparr>)
      | (None, None) \<Rightarrow> Inl ValueError)"

definition read_quorums :: "'a quorum_system \<Rightarrow> error + 'a set list" where
  "read_quorums qs = quorums (reads qs)"

definition write_quorums :: "'a quorum_system \<Rightarrow> error + 'a set list" where
  "write_quorums qs = quorums (writes qs)"

section \<open>Strategies\<close>

text \<open>Sequencing of computations that may raise, a dict lookup and float division.\<close>

definition bind_e :: "error + 'b \<Rightarrow> ('b \<Rightarrow> error + 'c) \<Rightarrow> error + 'c" where
  "bind_e r f = (case r of Inl err \<Rightarrow> Inl err | Inr v \<Rightarrow> f v)"

definition dict_get :: "('k \<rightharpoonup> 'v) \<Rightarrow> 'k \<Rightarrow> error + 'v" where
  "dict_get m k = (case m k of None \<Rightarrow> Inl KeyError | Some v \<Rightarrow> Inr v)"

definition py_div :: "real \<Rightarrow> real \<Rightarrow> error + real" where
  "py_div a b = (if b = 0 then Inl ZeroDivisionError else Inr (a / b))"

text \<open>\<open>max\<close> of a sequence: a ValueError when it is empty.\<close>

fun py_max :: "real list \<Rightarrow> error + real" where
  "py_max [] = Inl ValueError"
| "py_max (v # vs) = Inr (fold max vs v)"

text \<open>
  One round of \<open>for x in quorum: load[x] += weight\<close> on a \<open>defaultdict(float)\<close>:
  every member of the quorum gains \<open>weight\<close>, a missing one starting from \<open>0.0\<close>.
\<close>

definition add_load :: "'a set \<times> real \<Rightarrow> ('a \<rightharpoonup> real) \<Rightarrow> ('a \<rightharpoonup> real)" where
  "add_load qw m =
     (\<lambda>x. if x \<in> fst qw
          then Some ((case m x of None \<Rightarrow> 0 | Some v \<Rightarrow> v) + snd qw)
          else m x)"

text \<open>
  The loop over \<open>zip(quorums, weights)\<close> that fills such a table, and the dict
  comprehensions \<open>{node.x: node.read_capacity for node in nodes}\<close>. The set \<open>nodes\<close>
  of \<open>Node\<close> objects is the list of its elements in iteration order.
\<close>

definition quorum_load :: "'a set list \<Rightarrow> real list \<Rightarrow> ('a \<rightharpoonup> real)" where
  "quorum_load quorum_list weights = fold add_load (zip quorum_list weights) Map.empty"

definition capacity_dict :: "('a node \<Rightarrow> real) \<Rightarrow> 'a node list \<Rightarrow> ('a \<rightharpoonup> real)" where
  "capacity_dict cap ns = fold (\<lambda>n m. m(node_x n \<mapsto> cap n)) ns Map.empty"

subsection \<open>\<open>ExplicitStrategy\<close> of quorums.py\<close>

record 'a explicit_strategy =
  es_nodes :: "'a node list"
  es_read_capacity :: "'a \<rightharpoonup> real"
  es_write_capacity :: "'a \<rightharpoonup> real"
  es_reads :: "'a set list"
  es_read_weights :: "real list"
  es_writes :: "'a set list"
  es_write_weights :: "real list"

definition ExplicitStrategy_init ::
  "'a node list \<Rightarrow> 'a set list \<Rightarrow> real list \<Rightarrow> 'a set list \<Rightarrow> real list
   \<Rightarrow> 'a explicit_strategy" where
  "ExplicitStrategy_init ns rs rws ws wws =
     \<lparr>es_nodes = ns,
      es_read_capacity = capacity_dict read_capacity ns,
      es_write_capacity = capacity_dict write_capacity ns,
      es_reads = rs, es_read_weights = rws,
      es_writes = ws, es_write_weights = wws\<rparr>"

text \<open>The body of the loop \<open>for node in self.nodes\<close> of \<open>ExplicitStrategy.load\<close>.\<close>

definition es_node_load ::
  "'a explicit_strategy \<Rightarrow> real \<Rightarrow> ('a \<rightharpoonup> real) \<Rightarrow> ('a \<rightharpoonup> real) \<Rightarrow> 'a node
   \<Rightarrow> error + real" where
  "es_node_load s fr read_load write_load n =
     (let x = node_x n in
      bind_e
        (if x \<in> dom read_load
         then bind_e (dict_get read_load x) (\<lambda>rl.
              bind_e (dict_get (es_read_capacity s) x) (\<lambda>rc.
              bind_e (py_div (fr * rl) rc) (\<lambda>t. Inr (0 + t))))
         else Inr 0)
        (\<lambda>load.
           if x \<in> dom write_load
           then bind_e (dict_get write_load x) (\<lambda>wl.
                bind_e (dict_get (es_write_capacity s) x) (\<lambda>wc.
                bind_e (py_div ((1 - fr) * wl) wc) (\<lambda>t. Inr (load + t))))
           else Inr load))"

definition ExplicitStrategy_load :: "'a explicit_strategy \<Rightarrow> distribution \<Rightarrow> error + real" where
  "ExplicitStrategy_load s read_fraction =
     bind_e (canonicalize_distribution read_fraction) (\<lambda>d.
       let fr = sum_list (map (\<lambda>(f, weight). f * weight) d);
           read_load = quorum_load (es_reads s) (es_read_weights s);
           write_load = quorum_load (es_writes s) (es_write_weights s)
       in bind_e (collect (map (es_node_load s fr read_load write_load) (es_nodes s)))
            py_max)"

subsection \<open>\<open>Strategy\<close> of strategy.py\<close>

text \<open>
  \<open>Node\<close> is imported from the module \<open>expr\<close>; the attributes read here are those
  of \<open>Node\<close> above. The distribution passed to \<open>load\<close> goes through
  \<open>distribution.canonicalize_rw\<close>, whose result \<open>d\<close> (a dict from read fraction to
  weight) is the argument of \<open>Strategy_load\<close>.
\<close>

record 'a strategy =
  s_nodes :: "'a node list"
  s_read_capacity :: "'a \<rightharpoonup> real"
  s_write_capacity :: "'a \<rightharpoonup> real"
  s_reads :: "'a set list"
  s_read_weights :: "real list"
  s_writes :: "'a set list"
  s_write_weights :: "real list"
  unweighted_read_load :: "'a \<rightharpoonup> real"
  unweighted_write_load :: "'a \<rightharpoonup> real"

definition Strategy_init ::
  "'a node list \<Rightarrow> 'a set list \<Rightarrow> real list \<Rightarrow> 'a set list \<Rightarrow> real list \<Rightarrow> 'a strategy" where
  "Strategy_init ns rs rws ws wws =
     \<lparr>s_nodes = ns,
      s_read_capacity = capacity_dict read_capacity ns,
      s_write_capacity = capacity_dict write_capacity ns,
      s_reads = rs, s_read_weights = rws,
      s_writes = ws, s_write_weights = wws,
      unweighted_read_load = quorum_load rs rws,
      unweighted_write_load = quorum_load ws wws\<rparr>"

text \<open>
  Reading \<open>m[x]\<close> from a \<open>defaultdict(float)\<close>; then \<open>_node_load\<close> and \<open>_load\<close>, the
  loads at a fixed read fraction.
\<close>

definition default_get :: "('k \<rightharpoonup> real) \<Rightarrow> 'k \<Rightarrow> real" where
  "default_get m k = (case m k of None \<Rightarrow> 0 | Some v \<Rightarrow> v)"

definition node_load_fixed :: "'a strategy \<Rightarrow> 'a \<Rightarrow> real \<Rightarrow> error + real" where
  "node_load_fixed s x fr =
     (let fw = 1 - fr in
      bind_e (dict_get (s_read_capacity s) x) (\<lambda>rc.
      bind_e (py_div (fr * default_get (unweighted_read_load s) x) rc) (\<lambda>r.
      bind_e (dict_get (s_write_capacity s) x) (\<lambda>wc.
      bind_e (py_div (fw * default_get (unweighted_write_load s) x) wc) (\<lambda>w.
      Inr (r + w))))))"

definition load_fixed :: "'a strategy \<Rightarrow> real \<Rightarrow> error + real" where
  "load_fixed s fr = bind_e (collect (map (\<lambda>n. node_load_fixed s (node_x n) fr) (s_nodes s))) py_max"

definition Strategy_load :: "'a strategy \<Rightarrow> (real \<times> real) list \<Rightarrow> error + real" where
  "Strategy_load s d =
     bind_e (collect (map (\<lambda>(fr, weight). bind_e (load_fixed s fr) (\<lambda>l. Inr (weight * l))) d))
       (\<lambda>terms. Inr (sum_list terms))"

text \<open>Three \<open>Node\<close> objects with the default capacities, used in the examples below.\<close>

abbreviation node_a :: "string node" where
  "node_a \<equiv> \<lparr>oid = 0, node_x = ''a'', read_capacity = 1, write_capacity = 1\<rparr>"

abbreviation node_b :: "string node" where
  "node_b \<equiv> \<lparr>oid = 1, node_x = ''b'', read_capacity = 1, write_capacity = 1\<rparr>"

abbreviation node_c :: "string node" where
  "node_c \<equiv> \<lparr>oid = 2, node_x = ''c'', read_capacity = 1, write_capacity = 1\<rparr>"

text \<open>
  A second \<open>Node\<close> object carrying the identity of \<open>node_a\<close>, and the quorums of the
  majority of three.
\<close>

abbreviation node_a2 :: "string node" where
  "node_a2 \<equiv> \<lparr>oid = 3, node_x = ''a'', read_capacity = 1, write_capacity = 1\<rparr>"

abbreviation majority_quorums :: "string set list" where
  "majority_quorums \<equiv> [{''a'', ''b''}, {''a'', ''c''}, {''b'', ''c''}]"

section \<open>Lists of results\<close>

lemma collect_map_Inr: "collect (map Inr vs) = Inr vs"
  by (induction vs) auto

lemma collect_Inr_D: "collect rs = Inr vs \<Longrightarrow> rs = map Inr vs"
  by (induction rs arbitrary: vs) (auto split: sum.splits)

lemma collect_Inr_iff: "collect rs = Inr vs \<longleftrightarrow> rs = map Inr vs"
  using collect_Inr_D collect_map_Inr by blast

lemma collect_map_ok:
  "(\<And>x. x \<in> set xs \<Longrightarrow> f x = Inr (g x)) \<Longrightarrow> collect (map f xs) = Inr (map g xs)"
  by (induction xs) auto

lemma set_union_nonempty: "ss \<noteq> [] \<Longrightarrow> set_union ss = Inr (\<Union> (set ss))"
  by (cases ss) auto

lemma product_lists_nonempty:
  "qss \<noteq> [] \<Longrightarrow> sq \<in> set (product_lists qss) \<Longrightarrow> sq \<noteq> []"
  using in_set_product_lists_length by fastforce

lemma unions_of_product_ok:
  "qss \<noteq> [] \<Longrightarrow> unions_of_product qss = Inr (map (\<lambda>sq. \<Union> (set sq)) (product_lists qss))"
  unfolding unions_of_product_def
  by (rule collect_map_ok) (simp add: set_union_nonempty product_lists_nonempty)

lemma combinations_subset: "c \<in> set (combinations ys r) \<Longrightarrow> set c \<subseteq> set ys"
  by (induction ys r arbitrary: c rule: combinations.induct) fastforce+

lemma combinations_length: "c \<in> set (combinations ys r) \<Longrightarrow> length c = r"
  by (induction ys r arbitrary: c rule: combinations.induct) fastforce+

lemma combinations_filter:
  "(\<exists>c\<in>set (combinations ys r). \<forall>e\<in>set c. P e) \<longleftrightarrow> r \<le> length (filter P ys)"
proof (induction ys r rule: combinations.induct)
  case (1 xs)
  then show ?case by simp
next
  case (2 r)
  then show ?case by simp
next
  case (3 x xs r)
  then show ?case by (cases "P x") (auto simp: ball_Un bex_Un Suc_le_eq less_Suc_eq_le)
qed

lemma product_lists_all:
  "(\<exists>sq\<in>set (product_lists qss). \<forall>q\<in>set sq. P q) \<longleftrightarrow> (\<forall>Q\<in>set qss. \<exists>q\<in>set Q. P q)"
  by (induction qss) auto

lemma count_filter:
  "sum_list (map (\<lambda>e. if P e then 1 else 0) es) = int (length (filter P es))"
  by (induction es) auto

lemma children_ok:
  "\<forall>e\<in>set es. \<exists>Q. f e = Inr Q \<Longrightarrow>
   collect (map f es) = Inr (map (\<lambda>e. projr (f e)) es)"
  by (rule collect_map_ok) fastforce

lemma quorums_Or:
  assumes "\<forall>e\<in>set es. \<exists>Q. quorums e = Inr Q"
  shows "quorums (Or es) = Inr (concat (map (\<lambda>e. projr (quorums e)) es))"
  using children_ok [OF assms] by simp

lemma quorums_And:
  assumes "es \<noteq> []" and "\<forall>e\<in>set es. \<exists>Q. quorums e = Inr Q"
  shows "quorums (And es) =
    Inr (map (\<lambda>sq. \<Union> (set sq)) (product_lists (map (\<lambda>e. projr (quorums e)) es)))"
  using children_ok [OF assms(2)] assms(1) by (simp add: unions_of_product_ok)

lemma quorums_combo:
  assumes "c \<noteq> []" and "\<forall>e\<in>set c. \<exists>Q. quorums e = Inr Q"
  shows "(case collect (map quorums c) of Inl err \<Rightarrow> Inl err | Inr qss \<Rightarrow> unions_of_product qss) =
    Inr (map (\<lambda>sq. \<Union> (set sq)) (product_lists (map (\<lambda>e. projr (quorums e)) c)))"
  using children_ok [OF assms(2)] assms(1) by (simp add: unions_of_product_ok)

lemma quorums_Choose:
  assumes "1 \<le> k" and "\<forall>e\<in>set es. \<exists>Q. quorums e = Inr Q"
  shows "quorums (Choose k es) =
    Inr (concat (map (\<lambda>c. map (\<lambda>sq. \<Union> (set sq))
                              (product_lists (map (\<lambda>e. projr (quorums e)) c)))
                     (combinations es (nat k))))"
proof -
  have "c \<noteq> [] \<and> (\<forall>e\<in>set c. \<exists>Q. quorums e = Inr Q)"
    if "c \<in> set (combinations es (nat k))" for c
    using that assms combinations_subset [OF that] combinations_length [OF that] by auto
  then have "collect (map (\<lambda>combo.
                 (case collect (map quorums combo) of
                    Inl err \<Rightarrow> Inl err
                  | Inr qss \<Rightarrow> unions_of_product qss))
               (combinations es (nat k))) =
     Inr (map (\<lambda>c. map (\<lambda>sq. \<Union> (set sq))
                              (product_lists (map (\<lambda>e. projr (quorums e)) c)))
                     (combinations es (nat k)))"
    by (intro collect_map_ok quorums_combo) auto
  then show ?thesis using assms(1) by simp
qed

lemma quorums_ok: "constructed e \<Longrightarrow> \<exists>Q. quorums e = Inr Q"
proof (induction e)
  case (Node n)
  then show ?case by simp
next
  case (Or es)
  then have "\<forall>e\<in>set es. \<exists>Q. quorums e = Inr Q" by (simp add: list_all_iff)
  then show ?case using quorums_Or by blast
next
  case (And es)
  then have "\<forall>e\<in>set es. \<exists>Q. quorums e = Inr Q" by (simp add: list_all_iff)
  then show ?case using quorums_And And.prems by fastforce
next
  case (Choose k es)
  then have "\<forall>e\<in>set es. \<exists>Q. quorums e = Inr Q" by (simp add: list_all_iff)
  then show ?case using quorums_Choose Choose.prems by fastforce
qed

lemma constructed_children_ok:
  "list_all constructed es \<Longrightarrow> \<forall>e\<in>set es. \<exists>Q. quorums e = Inr Q"
  by (simp add: list_all_iff quorums_ok)

lemma is_quorum_iff:
  "constructed e \<Longrightarrow> is_quorum e xs \<longleftrightarrow> (\<exists>q\<in>set (projr (quorums e)). q \<subseteq> xs)"
proof (induction e)
  case (Node n)
  then show ?case by simp
next
  case (Or es)
  then have ok: "\<forall>e\<in>set es. \<exists>Q. quorums e = Inr Q"
    by (intro constructed_children_ok) simp
  from Or have ih: "\<forall>e\<in>set es. is_quorum e xs \<longleftrightarrow> (\<exists>q\<in>set (projr (quorums e)). q \<subseteq> xs)"
    by (simp add: list_all_iff)
  show ?case using ih by (simp add: quorums_Or [OF ok] list_ex_iff del: quorums.simps)
next
  case (And es)
  then have ok: "\<forall>e\<in>set es. \<exists>Q. quorums e = Inr Q" and ne: "es \<noteq> []"
    by (intro constructed_children_ok, simp_all)
  from And have ih: "\<forall>e\<in>set es. is_quorum e xs \<longleftrightarrow> (\<exists>q\<in>set (projr (quorums e)). q \<subseteq> xs)"
    by (simp add: list_all_iff)
  have "(\<exists>q\<in>set (projr (quorums (And es))). q \<subseteq> xs) \<longleftrightarrow>
        (\<exists>sq\<in>set (product_lists (map (\<lambda>e. projr (quorums e)) es)). \<forall>q\<in>set sq. q \<subseteq> xs)"
    by (simp add: quorums_And [OF ne ok] Sup_le_iff Bex_def del: quorums.simps)
  also have "\<dots> \<longleftrightarrow> (\<forall>e\<in>set es. \<exists>q\<in>set (projr (quorums e)). q \<subseteq> xs)"
    by (simp add: product_lists_all)
  finally show ?case using ih by (simp add: list_all_iff)
next
  case (Choose k es)
  then have ok: "\<forall>e\<in>set es. \<exists>Q. quorums e = Inr Q" and k: "1 \<le> k"
    by (intro constructed_children_ok, simp_all)
  from Choose have ih: "\<forall>e\<in>set es. is_quorum e xs \<longleftrightarrow> (\<exists>q\<in>set (projr (quorums e)). q \<subseteq> xs)"
    by (simp add: list_all_iff)
  have "(\<exists>q\<in>set (projr (quorums (Choose k es))). q \<subseteq> xs) \<longleftrightarrow>
        (\<exists>c\<in>set (combinations es (nat k)).
           \<exists>sq\<in>set (product_lists (map (\<lambda>e. projr (quorums e)) c)). \<forall>q\<in>set sq. q \<subseteq> xs)"
    by (simp add: quorums_Choose [OF k ok] Sup_le_iff Bex_def del: quorums.simps) blast
  also have "\<dots> \<longleftrightarrow> (\<exists>c\<in>set (combinations es (nat k)).
           \<forall>e\<in>set c. \<exists>q\<in>set (projr (quorums e)). q \<subseteq> xs)"
    by (simp add: product_lists_all)
  also have "\<dots> \<longleftrightarrow> (\<exists>c\<in>set (combinations es (nat k)). \<forall>e\<in>set c. is_quorum e xs)"
    using ih combinations_subset by (metis subsetD)
  also have "\<dots> \<longleftrightarrow> nat k \<le> length (filter (\<lambda>e. is_quorum e xs) es)"
    by (rule combinations_filter)
  also have "\<dots> \<longleftrightarrow> is_quorum (Choose k es) xs"
    using k by (simp add: count_filter) linarith
  finally show ?case by simp
qed


text \<open>\<open>constructed\<close> says that each constructor call on the way returned.\<close>

lemma constructed_by_init:
  "constructed (Or es) \<longleftrightarrow> Or_init es = Inr (Or es) \<and> list_all constructed es"
  "constructed (And es) \<longleftrightarrow> And_init es = Inr (And es) \<and> list_all constructed es"
  "constructed (Choose k es) \<longleftrightarrow> Choose_init k es = Inr (Choose k es) \<and> list_all constructed es"
  by (auto simp: Or_init_def And_init_def Choose_init_def)

section \<open>Membership test against enumeration\<close>

text \<open>
  C1. For every expression \<open>e\<close> built by the constructors and every set \<open>xs\<close>,
  \<open>e.is_quorum(xs)\<close> is true if and only if \<open>xs\<close> is a superset of some set that
  \<open>e.quorums()\<close> yields; the enumeration itself raises nothing.
\<close>

theorem is_quorum_iff_superset_of_quorum:
  assumes "constructed e"
  shows "\<exists>Q. quorums e = Inr Q \<and> (\<forall>xs. is_quorum e xs \<longleftrightarrow> (\<exists>q\<in>set Q. q \<subseteq> xs))"
proof -
  obtain Q where Q: "quorums e = Inr Q"
    using quorums_ok [OF assms] by blast
  have "is_quorum e xs \<longleftrightarrow> (\<exists>q\<in>set Q. q \<subseteq> xs)" for xs
    using is_quorum_iff [OF assms, of xs] Q by simp
  with Q show ?thesis by blast
qed

theorem is_quorum_iff_superset_of_quorum_witness:
  "constructed (Choose 2 [Node node_a, Node node_b, Node node_c]) \<and>
   (\<exists>Q. quorums (Choose 2 [Node node_a, Node node_b, Node node_c]) = Inr Q \<and>
     (\<forall>xs. is_quorum (Choose 2 [Node node_a, Node node_b, Node node_c]) xs
        \<longleftrightarrow> (\<exists>q\<in>set Q. q \<subseteq> xs)))"
proof -
  have h: "constructed (Choose 2 [Node node_a, Node node_b, Node node_c])"
    by simp
  from is_quorum_iff_superset_of_quorum [OF h] h show ?thesis
    by blast
qed


section \<open>Duals of constructed expressions\<close>

lemma dual_children:
  assumes "\<forall>e\<in>set es. \<exists>d. dual e = Inr d"
  shows "collect (map dual es) = Inr (map (\<lambda>e. projr (dual e)) es)"
  using assms by (rule children_ok)

lemma dual_involutive:
  "constructed e \<Longrightarrow> \<exists>d. dual e = Inr d \<and> constructed d \<and> dual d = Inr e"
proof (induction e)
  case (Node n)
  then show ?case by simp
next
  case (Or es)
  let ?ds = "map (\<lambda>e. projr (dual e)) es"
  from Or have ch: "\<forall>e\<in>set es. \<exists>d. dual e = Inr d \<and> constructed d \<and> dual d = Inr e"
    by (simp add: list_all_iff)
  then have c1: "collect (map dual es) = Inr ?ds"
    by (intro dual_children) blast
  have cons: "list_all constructed ?ds"
    using ch by (fastforce simp: list_all_iff)
  have "map dual ?ds = map Inr es"
    using ch by (fastforce simp: comp_def)
  then have c2: "collect (map dual ?ds) = Inr es"
    by (simp only: collect_map_Inr)
  from Or.prems have ne: "es \<noteq> []" by simp
  show ?case
    using c1 c2 ne cons by (simp add: And_init_def Or_init_def)
next
  case (And es)
  let ?ds = "map (\<lambda>e. projr (dual e)) es"
  from And have ch: "\<forall>e\<in>set es. \<exists>d. dual e = Inr d \<and> constructed d \<and> dual d = Inr e"
    by (simp add: list_all_iff)
  then have c1: "collect (map dual es) = Inr ?ds"
    by (intro dual_children) blast
  have cons: "list_all constructed ?ds"
    using ch by (fastforce simp: list_all_iff)
  have "map dual ?ds = map Inr es"
    using ch by (fastforce simp: comp_def)
  then have c2: "collect (map dual ?ds) = Inr es"
    by (simp only: collect_map_Inr)
  from And.prems have ne: "es \<noteq> []" by simp
  show ?case
    using c1 c2 ne cons by (simp add: And_init_def Or_init_def)
next
  case (Choose k es)
  let ?ds = "map (\<lambda>e. projr (dual e)) es"
  from Choose have ch: "\<forall>e\<in>set es. \<exists>d. dual e = Inr d \<and> constructed d \<and> dual d = Inr e"
    by (simp add: list_all_iff)
  then have c1: "collect (map dual es) = Inr ?ds"
    by (intro dual_children) blast
  have cons: "list_all constructed ?ds"
    using ch by (fastforce simp: list_all_iff)
  have "map dual ?ds = map Inr es"
    using ch by (fastforce simp: comp_def)
  then have c2: "collect (map dual ?ds) = Inr es"
    by (simp only: collect_map_Inr)
  from Choose.prems have k: "1 \<le> k" "k \<le> int (length es)" by simp_all
  show ?case
    using c1 c2 k cons by (simp add: Choose_init_def)
qed

lemma length_filter_not:
  "length (filter (\<lambda>e. \<not> P e) es) = length es - length (filter P es)"
  by (induction es) (auto simp: Suc_diff_le)

lemma dual_complement:
  "constructed e \<Longrightarrow> is_quorum (projr (dual e)) xs \<longleftrightarrow> \<not> is_quorum e (- xs)"
proof (induction e)
  case (Node n)
  then show ?case by simp
next
  case (Or es)
  from Or.prems have ch: "\<forall>e\<in>set es. \<exists>d. dual e = Inr d"
    using dual_involutive by (fastforce simp: list_all_iff)
  from Or have ih: "\<forall>e\<in>set es. is_quorum (projr (dual e)) xs \<longleftrightarrow> \<not> is_quorum e (- xs)"
    by (simp add: list_all_iff)
  from Or.prems have ne: "es \<noteq> []" by simp
  show ?case
    using ih ne by (simp add: dual_children [OF ch] And_init_def list_all_iff list_ex_iff)
next
  case (And es)
  from And.prems have ch: "\<forall>e\<in>set es. \<exists>d. dual e = Inr d"
    using dual_involutive by (fastforce simp: list_all_iff)
  from And have ih: "\<forall>e\<in>set es. is_quorum (projr (dual e)) xs \<longleftrightarrow> \<not> is_quorum e (- xs)"
    by (simp add: list_all_iff)
  from And.prems have ne: "es \<noteq> []" by simp
  show ?case
    using ih ne by (simp add: dual_children [OF ch] Or_init_def list_all_iff list_ex_iff)
next
  case (Choose k es)
  from Choose.prems have ch: "\<forall>e\<in>set es. \<exists>d. dual e = Inr d"
    using dual_involutive by (fastforce simp: list_all_iff)
  from Choose have ih: "\<forall>e\<in>set es. is_quorum (projr (dual e)) xs \<longleftrightarrow> \<not> is_quorum e (- xs)"
    by (simp add: list_all_iff)
  from Choose.prems have k: "1 \<le> k" "k \<le> int (length es)" by simp_all
  have f: "filter (\<lambda>e. is_quorum (projr (dual e)) xs) es = filter (\<lambda>e. \<not> is_quorum e (- xs)) es"
    using ih by (simp cong: filter_cong)
  have le: "length (filter (\<lambda>e. is_quorum e (- xs)) es) \<le> length es"
    by simp
  have "is_quorum (projr (dual (Choose k es))) xs \<longleftrightarrow>
        int (length es) - k + 1 \<le> int (length (filter (\<lambda>e. is_quorum (projr (dual e)) xs) es))"
    using k by (simp add: dual_children [OF ch] Choose_init_def count_filter comp_def
        filter_map)
  also have "\<dots> \<longleftrightarrow> \<not> k \<le> int (length (filter (\<lambda>e. is_quorum e (- xs)) es))"
    unfolding f length_filter_not using le by linarith
  finally show ?case by (simp add: count_filter)
qed

lemma quorums_intersect:
  assumes "constructed e" and "dual e = Inr d"
    and "quorums e = Inr R" and "quorums d = Inr W"
    and "r \<in> set R" and "w \<in> set W"
  shows "r \<inter> w \<noteq> {}"
proof
  assume disj: "r \<inter> w = {}"
  have cd: "constructed d"
    using dual_involutive [OF assms(1)] assms(2) by auto
  have "is_quorum d w"
    using is_quorum_iff [OF cd, of w] assms(4,6) by auto
  then have "\<not> is_quorum e (- w)"
    using dual_complement [OF assms(1), of w] assms(2) by simp
  moreover have "r \<subseteq> - w" using disj by blast
  then have "is_quorum e (- w)"
    using is_quorum_iff [OF assms(1), of "- w"] assms(3,5) by auto
  ultimately show False by simp
qed


section \<open>Dualization\<close>

text \<open>
  C3. For every expression \<open>e\<close> built by the constructors, \<open>dual(dual(e))\<close> enumerates
  the same set of quorums as \<open>e\<close>, and \<open>dual\<close> is computed structurally: a leaf is its
  own dual, \<open>Or\<close> becomes \<open>And\<close> and \<open>And\<close> becomes \<open>Or\<close> over the children's duals, and
  \<open>Choose(k, es)\<close> becomes \<open>Choose(n - k + 1, ...)\<close> over the children's duals, with
  \<open>n = len(es)\<close>.
\<close>

theorem dual_dual_same_quorums:
  assumes "constructed e"
  shows "(\<exists>d dd Q Q'. dual e = Inr d \<and> dual d = Inr dd \<and>
            quorums e = Inr Q \<and> quorums dd = Inr Q' \<and> set Q' = set Q) \<and>
         (case e of
            Node n \<Rightarrow> dual e = Inr (Node n)
          | Or es \<Rightarrow> \<exists>ds. collect (map dual es) = Inr ds \<and> dual e = Inr (And ds)
          | And es \<Rightarrow> \<exists>ds. collect (map dual es) = Inr ds \<and> dual e = Inr (Or ds)
          | Choose k es \<Rightarrow>
              \<exists>ds. collect (map dual es) = Inr ds \<and>
                   dual e = Inr (Choose (int (length es) - k + 1) ds))"
proof
  obtain d where d: "dual e = Inr d" "dual d = Inr e"
    using dual_involutive [OF assms] by blast
  obtain Q where Q: "quorums e = Inr Q"
    using quorums_ok [OF assms] by blast
  from d Q show "\<exists>d dd Q Q'. dual e = Inr d \<and> dual d = Inr dd \<and>
            quorums e = Inr Q \<and> quorums dd = Inr Q' \<and> set Q' = set Q"
    by blast
next
  have ch: "collect (map dual es) = Inr (map (\<lambda>e. projr (dual e)) es)"
    if "list_all constructed es" for es :: "'a expr list"
    using that dual_involutive by (intro dual_children) (fastforce simp: list_all_iff)
  show "case e of
            Node n \<Rightarrow> dual e = Inr (Node n)
          | Or es \<Rightarrow> \<exists>ds. collect (map dual es) = Inr ds \<and> dual e = Inr (And ds)
          | And es \<Rightarrow> \<exists>ds. collect (map dual es) = Inr ds \<and> dual e = Inr (Or ds)
          | Choose k es \<Rightarrow>
              \<exists>ds. collect (map dual es) = Inr ds \<and>
                   dual e = Inr (Choose (int (length es) - k + 1) ds)"
  proof (cases e)
    case (Node n)
    then show ?thesis by simp
  next
    case (Or es)
    with assms have "list_all constructed es" "es \<noteq> []" by simp_all
    then show ?thesis using Or ch by (simp add: And_init_def)
  next
    case (And es)
    with assms have "list_all constructed es" "es \<noteq> []" by simp_all
    then show ?thesis using And ch by (simp add: Or_init_def)
  next
    case (Choose k es)
    with assms have "list_all constructed es" "1 \<le> k" "k \<le> int (length es)" by simp_all
    then show ?thesis using Choose ch by (simp add: Choose_init_def)
  qed
qed

theorem dual_dual_same_quorums_witness:
  "constructed (Choose 2 [Node node_a, Or [Node node_b, Node node_c], Node node_c]) \<and>
   (\<exists>d dd Q Q'.
      dual (Choose 2 [Node node_a, Or [Node node_b, Node node_c], Node node_c]) = Inr d \<and>
      dual d = Inr dd \<and>
      quorums (Choose 2 [Node node_a, Or [Node node_b, Node node_c], Node node_c]) = Inr Q \<and>
      quorums dd = Inr Q' \<and> set Q' = set Q) \<and>
   (\<exists>ds. collect (map dual [Node node_a, Or [Node node_b, Node node_c], Node node_c]) = Inr ds \<and>
      dual (Choose 2 [Node node_a, Or [Node node_b, Node node_c], Node node_c])
        = Inr (Choose 2 ds))"
proof -
  have h: "constructed (Choose 2 [Node node_a, Or [Node node_b, Node node_c], Node node_c])"
    by simp
  from dual_dual_same_quorums [OF h] h show ?thesis
    by simp
qed

section \<open>Quorum systems built from one side\<close>

text \<open>
  C2. For every quorum system constructed from one side only (from the reads, so that
  the writes are \<open>dual(reads)\<close>, or from the writes, so that the reads are
  \<open>dual(writes)\<close>), the construction succeeds and every set that \<open>read_quorums()\<close>
  yields intersects every set that \<open>write_quorums()\<close> yields.
\<close>

theorem single_side_quorums_intersect:
  assumes "constructed e"
  shows "(\<exists>qs R W. QuorumSystem_init (Some e) None = Inr qs \<and>
            read_quorums qs = Inr R \<and> write_quorums qs = Inr W \<and>
            (\<forall>r\<in>set R. \<forall>w\<in>set W. r \<inter> w \<noteq> {})) \<and>
         (\<exists>qs R W. QuorumSystem_init None (Some e) = Inr qs \<and>
            read_quorums qs = Inr R \<and> write_quorums qs = Inr W \<and>
            (\<forall>r\<in>set R. \<forall>w\<in>set W. r \<inter> w \<noteq> {}))"
proof -
  obtain d where d: "dual e = Inr d" "constructed d"
    using dual_involutive [OF assms] by blast
  obtain Q where Q: "quorums e = Inr Q"
    using quorums_ok [OF assms] by blast
  obtain D where D: "quorums d = Inr D"
    using quorums_ok [OF d(2)] by blast
  have meet: "\<forall>r\<in>set Q. \<forall>w\<in>set D. r \<inter> w \<noteq> {}"
    using quorums_intersect [OF assms d(1) Q D] by blast
  then have meet': "\<forall>r\<in>set D. \<forall>w\<in>set Q. r \<inter> w \<noteq> {}"
    by (metis Int_commute)
  have "QuorumSystem_init (Some e) None = Inr \<lparr>reads = e, writes = d\<rparr>"
    using d(1) by (simp add: QuorumSystem_init_def)
  moreover have "QuorumSystem_init None (Some e) = Inr \<lparr>reads = d, writes = e\<rparr>"
    using d(1) by (simp add: QuorumSystem_init_def)
  ultimately show ?thesis
    using Q D meet meet' by (simp add: read_quorums_def write_quorums_def)
qed

theorem single_side_quorums_intersect_witness:
  "constructed (Or [And [Node node_a, Node node_b], Node node_c]) \<and>
   (\<exists>qs R W. QuorumSystem_init (Some (Or [And [Node node_a, Node node_b], Node node_c])) None
        = Inr qs \<and>
      read_quorums qs = Inr R \<and> write_quorums qs = Inr W \<and>
      list_all (\<lambda>r. list_all (\<lambda>w. r \<inter> w \<noteq> {}) W) R) \<and>
   (\<exists>qs R W. QuorumSystem_init None (Some (Or [And [Node node_a, Node node_b], Node node_c]))
        = Inr qs \<and>
      read_quorums qs = Inr R \<and> write_quorums qs = Inr W \<and>
      list_all (\<lambda>r. list_all (\<lambda>w. r \<inter> w \<noteq> {}) W) R)"
proof -
  have h: "constructed (Or [And [Node node_a, Node node_b], Node node_c])"
    by simp
  from single_side_quorums_intersect [OF h] h show ?thesis
    unfolding list_all_iff by blast
qed



section \<open>Nodes of constructed expressions\<close>

lemma nodes_children:
  assumes "es \<noteq> []" and "\<forall>e\<in>set es. \<exists>N. nodes e = Inr N"
  shows "(case collect (map nodes es) of Inl err \<Rightarrow> Inl err | Inr ns \<Rightarrow> set_union ns)
         = Inr (\<Union>e\<in>set es. projr (nodes e))"
  using children_ok [OF assms(2)] assms(1) by (simp add: set_union_nonempty)

lemma nodes_ok: "constructed e \<Longrightarrow> \<exists>N. nodes e = Inr N"
proof (induction e)
  case (Node n)
  then show ?case by simp
next
  case (Or es)
  then have "es \<noteq> []" "\<forall>e\<in>set es. \<exists>N. nodes e = Inr N" by (simp_all add: list_all_iff)
  then show ?case using nodes_children by fastforce
next
  case (And es)
  then have "es \<noteq> []" "\<forall>e\<in>set es. \<exists>N. nodes e = Inr N" by (simp_all add: list_all_iff)
  then show ?case using nodes_children by fastforce
next
  case (Choose k es)
  then have "es \<noteq> []" "\<forall>e\<in>set es. \<exists>N. nodes e = Inr N" by (auto simp: list_all_iff)
  then show ?case using nodes_children by fastforce
qed

lemma nodes_of_children:
  assumes "es \<noteq> []" and "list_all constructed es"
  shows "nodes (Or es) = Inr (\<Union>e\<in>set es. projr (nodes e))"
    and "nodes (And es) = Inr (\<Union>e\<in>set es. projr (nodes e))"
    and "nodes (Choose k es) = Inr (\<Union>e\<in>set es. projr (nodes e))"
proof -
  have "\<forall>e\<in>set es. \<exists>N. nodes e = Inr N"
    using assms(2) nodes_ok by (auto simp: list_all_iff)
  from nodes_children [OF assms(1) this]
  show "nodes (Or es) = Inr (\<Union>e\<in>set es. projr (nodes e))"
    and "nodes (And es) = Inr (\<Union>e\<in>set es. projr (nodes e))"
    and "nodes (Choose k es) = Inr (\<Union>e\<in>set es. projr (nodes e))"
    by simp_all
qed

lemma product_member_all:
  "sq \<in> set (product_lists (map f c)) \<Longrightarrow> \<forall>s\<in>set sq. \<exists>e\<in>set c. s \<in> set (f e)"
  by (induction c arbitrary: sq) fastforce+

lemma product_member:
  "sq \<in> set (product_lists (map f c)) \<Longrightarrow> s \<in> set sq \<Longrightarrow> \<exists>e\<in>set c. s \<in> set (f e)"
  using product_member_all by blast

lemma union_of_product_bounded:
  assumes "c \<noteq> []" and "sq \<in> set (product_lists (map f c))"
    and "\<And>e s. e \<in> set c \<Longrightarrow> s \<in> set (f e) \<Longrightarrow> s \<noteq> {} \<and> s \<subseteq> B"
  shows "\<Union> (set sq) \<noteq> {} \<and> \<Union> (set sq) \<subseteq> B"
proof -
  have all: "\<forall>s\<in>set sq. s \<noteq> {} \<and> s \<subseteq> B"
    using product_member [OF assms(2)] assms(3) by blast
  have "sq \<noteq> []"
    using product_lists_nonempty [OF _ assms(2)] assms(1) by simp
  then obtain s where "s \<in> set sq" by (cases sq) auto
  with all show ?thesis by blast
qed


lemma within_child:
  "e \<in> set es \<Longrightarrow> s \<subseteq> node_x ` projr (nodes e) \<Longrightarrow>
   s \<subseteq> node_x ` (\<Union>e\<in>set es. projr (nodes e))"
  by blast

lemma quorums_bounded:
  "constructed e \<Longrightarrow>
   \<forall>q\<in>set (projr (quorums e)). q \<noteq> {} \<and> q \<subseteq> node_x ` projr (nodes e)"
proof (induction e)
  case (Node n)
  then show ?case by simp
next
  case (Or es)
  then have ne: "es \<noteq> []" and cs: "list_all constructed es" by simp_all
  have ok: "\<forall>e\<in>set es. \<exists>Q. quorums e = Inr Q"
    using cs by (rule constructed_children_ok)
  from Or.IH cs have ih: "\<And>e s. e \<in> set es \<Longrightarrow> s \<in> set (projr (quorums e)) \<Longrightarrow>
      s \<noteq> {} \<and> s \<subseteq> node_x ` (\<Union>e\<in>set es. projr (nodes e))"
    using within_child by (metis list_all_iff)
  have Q: "projr (quorums (Or es)) = concat (map (\<lambda>e. projr (quorums e)) es)"
    by (simp only: quorums_Or [OF ok] sum.sel)
  have N: "projr (nodes (Or es)) = (\<Union>e\<in>set es. projr (nodes e))"
    by (simp only: nodes_of_children(1) [OF ne cs] sum.sel)
  show ?case
    unfolding Q N
  proof
    fix q assume "q \<in> set (concat (map (\<lambda>e. projr (quorums e)) es))"
    then obtain e where "e \<in> set es" "q \<in> set (projr (quorums e))" by auto
    then show "q \<noteq> {} \<and> q \<subseteq> node_x ` (\<Union>e\<in>set es. projr (nodes e))"
      by (rule ih)
  qed
next
  case (And es)
  then have ne: "es \<noteq> []" and cs: "list_all constructed es" by simp_all
  have ok: "\<forall>e\<in>set es. \<exists>Q. quorums e = Inr Q"
    using cs by (rule constructed_children_ok)
  from And.IH cs have ih: "\<And>e s. e \<in> set es \<Longrightarrow> s \<in> set (projr (quorums e)) \<Longrightarrow>
      s \<noteq> {} \<and> s \<subseteq> node_x ` (\<Union>e\<in>set es. projr (nodes e))"
    using within_child by (metis list_all_iff)
  have Q: "projr (quorums (And es)) =
      map (\<lambda>sq. \<Union> (set sq)) (product_lists (map (\<lambda>e. projr (quorums e)) es))"
    by (simp only: quorums_And [OF ne ok] sum.sel)
  have N: "projr (nodes (And es)) = (\<Union>e\<in>set es. projr (nodes e))"
    by (simp only: nodes_of_children(2) [OF ne cs] sum.sel)
  show ?case
    unfolding Q N
  proof
    fix q
    assume "q \<in> set (map (\<lambda>sq. \<Union> (set sq))
                      (product_lists (map (\<lambda>e. projr (quorums e)) es)))"
    then obtain sq where sq: "sq \<in> set (product_lists (map (\<lambda>e. projr (quorums e)) es))"
      and q: "q = \<Union> (set sq)" by auto
    show "q \<noteq> {} \<and> q \<subseteq> node_x ` (\<Union>e\<in>set es. projr (nodes e))"
      unfolding q using ne sq ih by (rule union_of_product_bounded)
  qed
next
  case (Choose k es)
  then have k: "1 \<le> k" "k \<le> int (length es)" and cs: "list_all constructed es" by simp_all
  then have ne: "es \<noteq> []" by auto
  have ok: "\<forall>e\<in>set es. \<exists>Q. quorums e = Inr Q"
    using cs by (rule constructed_children_ok)
  from Choose.IH cs have ih: "\<And>e s. e \<in> set es \<Longrightarrow> s \<in> set (projr (quorums e)) \<Longrightarrow>
      s \<noteq> {} \<and> s \<subseteq> node_x ` (\<Union>e\<in>set es. projr (nodes e))"
    using within_child by (metis list_all_iff)
  have Q: "projr (quorums (Choose k es)) =
      concat (map (\<lambda>c. map (\<lambda>sq. \<Union> (set sq))
                              (product_lists (map (\<lambda>e. projr (quorums e)) c)))
                     (combinations es (nat k)))"
    by (simp only: quorums_Choose [OF k(1) ok] sum.sel)
  have N: "projr (nodes (Choose k es)) = (\<Union>e\<in>set es. projr (nodes e))"
    by (simp only: nodes_of_children(3) [OF ne cs] sum.sel)
  show ?case
    unfolding Q N
  proof
    fix q
    assume "q \<in> set (concat (map (\<lambda>c. map (\<lambda>sq. \<Union> (set sq))
                              (product_lists (map (\<lambda>e. projr (quorums e)) c)))
                     (combinations es (nat k))))"
    then obtain c sq where c: "c \<in> set (combinations es (nat k))"
      and sq: "sq \<in> set (product_lists (map (\<lambda>e. projr (quorums e)) c))"
      and q: "q = \<Union> (set sq)" by auto
    have cne: "c \<noteq> []"
      using combinations_length [OF c] k(1) by auto
    have sub: "set c \<subseteq> set es" using c by (rule combinations_subset)
    show "q \<noteq> {} \<and> q \<subseteq> node_x ` (\<Union>e\<in>set es. projr (nodes e))"
      unfolding q using cne sq
    proof (rule union_of_product_bounded)
      fix e s assume "e \<in> set c" "s \<in> set (projr (quorums e))"
      with sub show "s \<noteq> {} \<and> s \<subseteq> node_x ` (\<Union>e\<in>set es. projr (nodes e))"
        using ih by blast
    qed
  qed
qed

section \<open>Enumerated quorums and the nodes of an expression\<close>

text \<open>
  C9. For every expression \<open>e\<close> built by the constructors, every set that
  \<open>e.quorums()\<close> yields is non-empty and is a subset of the identities
  \<open>{n.x | n \<in> e.nodes()}\<close> of the expression's nodes; neither call raises.
\<close>

theorem quorums_nonempty_within_nodes:
  assumes "constructed e"
  shows "\<exists>Q N. quorums e = Inr Q \<and> nodes e = Inr N \<and>
           (\<forall>q\<in>set Q. q \<noteq> {} \<and> q \<subseteq> node_x ` N)"
proof -
  obtain Q where Q: "quorums e = Inr Q"
    using quorums_ok [OF assms] by blast
  obtain N where N: "nodes e = Inr N"
    using nodes_ok [OF assms] by blast
  from quorums_bounded [OF assms] Q N show ?thesis by simp
qed

theorem quorums_nonempty_within_nodes_witness:
  "constructed (And [Or [Node node_a, Node node_b], Choose 1 [Node node_b, Node node_c]]) \<and>
   (\<exists>Q N. quorums (And [Or [Node node_a, Node node_b], Choose 1 [Node node_b, Node node_c]])
        = Inr Q \<and>
      nodes (And [Or [Node node_a, Node node_b], Choose 1 [Node node_b, Node node_c]]) = Inr N \<and>
      list_all (\<lambda>q. q \<noteq> {} \<and> q \<subseteq> node_x ` N) Q)"
proof -
  have h: "constructed (And [Or [Node node_a, Node node_b], Choose 1 [Node node_b, Node node_c]])"
    by simp
  from quorums_nonempty_within_nodes [OF h] h show ?thesis
    unfolding list_all_iff by blast
qed



section \<open>Combinations of one and of all children\<close>

lemma combinations_one: "combinations es (Suc 0) = map (\<lambda>e. [e]) es"
  by (induction es) auto

lemma combinations_too_many: "length es < r \<Longrightarrow> combinations es r = []"
  by (induction es r rule: combinations.induct) auto

lemma combinations_all: "combinations es (length es) = [es]"
  by (induction es) (auto simp: combinations_too_many)

lemma product_lists_single: "product_lists [Q] = map (\<lambda>q. [q]) Q"
  by (induction Q) auto

lemma quorums_Choose_one:
  assumes "\<forall>e\<in>set es. \<exists>Q. quorums e = Inr Q"
  shows "quorums (Choose 1 es) = quorums (Or es)"
proof -
  have "quorums (Choose 1 es) =
      Inr (concat (map (\<lambda>c. map (\<lambda>sq. \<Union> (set sq))
                              (product_lists (map (\<lambda>e. projr (quorums e)) c)))
                     (combinations es (nat 1))))"
    using assms by (intro quorums_Choose) simp_all
  also have "\<dots> = Inr (concat (map (\<lambda>e. projr (quorums e)) es))"
    by (simp add: combinations_one product_lists_single comp_def)
  also have "\<dots> = quorums (Or es)"
    by (simp only: quorums_Or [OF assms])
  finally show ?thesis .
qed

lemma quorums_Choose_all:
  assumes "es \<noteq> []" and "\<forall>e\<in>set es. \<exists>Q. quorums e = Inr Q"
  shows "quorums (Choose (int (length es)) es) = quorums (And es)"
proof -
  have "1 \<le> int (length es)"
    using assms(1) by (cases es) auto
  then have "quorums (Choose (int (length es)) es) =
      Inr (concat (map (\<lambda>c. map (\<lambda>sq. \<Union> (set sq))
                              (product_lists (map (\<lambda>e. projr (quorums e)) c)))
                     (combinations es (nat (int (length es))))))"
    using assms(2) by (intro quorums_Choose)
  also have "\<dots> = Inr (map (\<lambda>sq. \<Union> (set sq))
                         (product_lists (map (\<lambda>e. projr (quorums e)) es)))"
    by (simp add: combinations_all)
  also have "\<dots> = quorums (And es)"
    by (simp only: quorums_And [OF assms])
  finally show ?thesis .
qed

section \<open>The helper choose\<close>

text \<open>
  C10. For every non-empty list \<open>es\<close> of expressions built by the constructors and every
  \<open>k\<close> with \<open>1 \<le> k \<le> len(es)\<close>, the helper \<open>choose(k, es)\<close> returns an expression (it is
  \<open>Or(es)\<close> when \<open>k = 1\<close>, otherwise \<open>And(es)\<close> when \<open>k = len(es)\<close>, otherwise
  \<open>Choose(k, es)\<close>) that enumerates the same set of quorums as \<open>Choose(k, es)\<close>.
\<close>

theorem choose_enumerates_as_Choose:
  assumes "es \<noteq> []" and "1 \<le> k" and "k \<le> int (length es)" and "list_all constructed es"
  shows "\<exists>c Q Q'. choose_expr k es = Inr c \<and>
           c = (if k = 1 then Or es else if k = int (length es) then And es else Choose k es) \<and>
           Choose_init k es = Inr (Choose k es) \<and>
           quorums c = Inr Q \<and> quorums (Choose k es) = Inr Q' \<and> set Q = set Q'"
proof -
  have ok: "\<forall>e\<in>set es. \<exists>Q. quorums e = Inr Q"
    using assms(4) by (rule constructed_children_ok)
  have "constructed (Choose k es)"
    using assms by simp
  then obtain Q' where Q': "quorums (Choose k es) = Inr Q'"
    using quorums_ok by blast
  have init: "Choose_init k es = Inr (Choose k es)"
    using assms(2,3) by (simp add: Choose_init_def)
  consider "k = 1" | "k \<noteq> 1" "k = int (length es)" | "k \<noteq> 1" "k \<noteq> int (length es)"
    by blast
  then show ?thesis
  proof cases
    case 1
    then have "choose_expr k es = Inr (Or es)"
      using assms(1) by (simp add: choose_expr_def Or_init_def)
    moreover have "quorums (Or es) = Inr Q'"
      using Q' 1 quorums_Choose_one [OF ok] by simp
    ultimately show ?thesis using 1 Q' init by simp
  next
    case 2
    then have "choose_expr k es = Inr (And es)"
      using assms(1) by (simp add: choose_expr_def And_init_def)
    moreover have "quorums (And es) = Inr Q'"
      using Q' 2 quorums_Choose_all [OF assms(1) ok] by simp
    ultimately show ?thesis using 2 Q' init by simp
  next
    case 3
    then have "choose_expr k es = Inr (Choose k es)"
      using init by (simp add: choose_expr_def)
    then show ?thesis using 3 Q' init by simp
  qed
qed

theorem choose_enumerates_as_Choose_witness:
  "[Node node_a, Node node_b, Node node_c] \<noteq> [] \<and> (1::int) \<le> 3 \<and>
   (3::int) \<le> int (length [Node node_a, Node node_b, Node node_c]) \<and>
   list_all constructed [Node node_a, Node node_b, Node node_c] \<and>
   (\<exists>Q Q'. choose_expr 3 [Node node_a, Node node_b, Node node_c]
              = Inr (And [Node node_a, Node node_b, Node node_c]) \<and>
      quorums (And [Node node_a, Node node_b, Node node_c]) = Inr Q \<and>
      quorums (Choose 3 [Node node_a, Node node_b, Node node_c]) = Inr Q' \<and> set Q = set Q')"
proof -
  have h: "[Node node_a, Node node_b, Node node_c] \<noteq> []" "(1::int) \<le> 3"
    "(3::int) \<le> int (length [Node node_a, Node node_b, Node node_c])"
    "list_all constructed [Node node_a, Node node_b, Node node_c]"
    by simp_all
  from choose_enumerates_as_Choose [OF h] h show ?thesis
    by auto
qed

section \<open>Constructor errors\<close>

text \<open>
  C7. \<open>Or\<close> and \<open>And\<close> raise a ValueError on an empty child list, and \<open>Choose(k, es)\<close>
  raises a ValueError when \<open>k < 1\<close> or \<open>k > len(es)\<close>; \<open>Or\<close> and \<open>And\<close> succeed on every
  non-empty child list, and \<open>Choose\<close> succeeds for every \<open>k\<close> with \<open>1 \<le> k \<le> len(es)\<close>.
\<close>

theorem constructors_raise_exactly:
  "(Or_init es = (if es = [] then Inl ValueError else Inr (Or es))) \<and>
   (And_init es = (if es = [] then Inl ValueError else Inr (And es))) \<and>
   (Choose_init k es =
      (if k < 1 \<or> k > int (length es) then Inl ValueError else Inr (Choose k es)))"
  by (simp add: Or_init_def And_init_def Choose_init_def)

theorem constructors_raise_exactly_witness:
  "Or_init ([] :: string expr list) = Inl ValueError \<and>
   And_init ([] :: string expr list) = Inl ValueError \<and>
   Choose_init 0 [Node node_a, Node node_b] = Inl ValueError \<and>
   Choose_init 3 [Node node_a, Node node_b] = Inl ValueError \<and>
   Choose_init 1 ([] :: string expr list) = Inl ValueError \<and>
   Or_init [Node node_a] = Inr (Or [Node node_a]) \<and>
   And_init [Node node_a] = Inr (And [Node node_a]) \<and>
   Choose_init 1 [Node node_a, Node node_b] = Inr (Choose 1 [Node node_a, Node node_b]) \<and>
   Choose_init 2 [Node node_a, Node node_b] = Inr (Choose 2 [Node node_a, Node node_b])"
  using constructors_raise_exactly [of "[] :: string expr list" 1]
    constructors_raise_exactly [of "[Node node_a, Node node_b]" 0]
    constructors_raise_exactly [of "[Node node_a, Node node_b]" 3]
    constructors_raise_exactly [of "[Node node_a]" 1]
    constructors_raise_exactly [of "[Node node_a, Node node_b]" 1]
    constructors_raise_exactly [of "[Node node_a, Node node_b]" 2]
  by simp


section \<open>The majority of three\<close>

lemma quorums_Choose_2_of_3:
  "quorums (Choose 2 [Node a, Node b, Node c]) =
     Inr [{node_x a, node_x b}, {node_x a, node_x c}, {node_x b, node_x c}]"
  by (simp add: numeral_2_eq_2 unions_of_product_def insert_commute)

text \<open>
  C8. For the quorum system constructed with \<open>reads = majority([a, b, c])\<close> over three
  nodes, the set of read quorums and the set of write quorums are both
  \<open>{{a, b}, {a, c}, {b, c}}\<close>, where \<open>majority(es)\<close> is \<open>choose(len(es) // 2 + 1, es)\<close>.
\<close>

theorem majority_of_three:
  "majority [Node a, Node b, Node c] = choose_expr (int (length [Node a, Node b, Node c]) div 2 + 1)
       [Node a, Node b, Node c] \<and>
   (\<exists>m qs R W. majority [Node a, Node b, Node c] = Inr m \<and>
      QuorumSystem_init (Some m) None = Inr qs \<and>
      read_quorums qs = Inr R \<and> write_quorums qs = Inr W \<and>
      set R = {{node_x a, node_x b}, {node_x a, node_x c}, {node_x b, node_x c}} \<and>
      set W = {{node_x a, node_x b}, {node_x a, node_x c}, {node_x b, node_x c}})"
proof -
  let ?es = "[Node a, Node b, Node c]"
  have m: "majority ?es = Inr (Choose 2 ?es)"
    by (simp add: majority_def choose_expr_def Choose_init_def)
  have d: "dual (Choose 2 ?es) = Inr (Choose 2 ?es)"
    by (simp add: Choose_init_def)
  have qs: "QuorumSystem_init (Some (Choose 2 ?es)) None =
      Inr \<lparr>reads = Choose 2 ?es, writes = Choose 2 ?es\<rparr>"
    by (simp add: QuorumSystem_init_def Choose_init_def)
  show ?thesis
    using m qs quorums_Choose_2_of_3 [of a b c]
    by (simp add: read_quorums_def write_quorums_def majority_def del: quorums.simps)
qed

theorem majority_of_three_witness:
  "Node_init 0 ''a'' None None None = Inr node_a \<and>
   Node_init 1 ''b'' None None None = Inr node_b \<and>
   Node_init 2 ''c'' None None None = Inr node_c \<and>
   (\<exists>m qs R W. majority [Node node_a, Node node_b, Node node_c] = Inr m \<and>
      QuorumSystem_init (Some m) None = Inr qs \<and>
      read_quorums qs = Inr R \<and> write_quorums qs = Inr W \<and>
      set R = {{''a'', ''b''}, {''a'', ''c''}, {''b'', ''c''}} \<and>
      set W = {{''a'', ''b''}, {''a'', ''c''}, {''b'', ''c''}})"
  using conjunct2 [OF majority_of_three [of node_a node_b node_c]]
  by (simp add: Node_init_def)


section \<open>Equality of nodes\<close>

text \<open>
  Against C5 as stated: \<open>node_a\<close> and \<open>node_a2\<close> carry the same identity \<open>''a''\<close>, yet they
  are not equal, and \<open>nodes()\<close> of an \<open>Or\<close> over both has two elements.
\<close>

theorem node_equality_counterexample:
  "node_x node_a = node_x node_a2 \<and> \<not> node_eq node_a node_a2 \<and>
   Or_init [Node node_a, Node node_a2] = Inr (Or [Node node_a, Node node_a2]) \<and>
   nodes (Or [Node node_a, Node node_a2]) = Inr {node_a, node_a2} \<and>
   card {node_a, node_a2} = 2"
  by (simp add: node_eq_def Or_init_def insert_commute)

text \<open>On a constructed expression \<open>nodes()\<close> returns exactly the objects at its leaves.\<close>

lemma nodes_are_leaves:
  "constructed e \<Longrightarrow> nodes e = Inr {n. contains_node e n}"
proof (induction e)
  case (Node n)
  then show ?case by auto
next
  case (Or es)
  then have ne: "es \<noteq> []" and cs: "list_all constructed es" by simp_all
  from Or.IH cs have "\<forall>e\<in>set es. projr (nodes e) = {n. contains_node e n}"
    by (simp add: list_all_iff)
  then have "(\<Union>e\<in>set es. projr (nodes e)) = {n. contains_node (Or es) n}"
    by (auto simp: list_ex_iff)
  then show ?case
    by (simp only: nodes_of_children(1) [OF ne cs])
next
  case (And es)
  then have ne: "es \<noteq> []" and cs: "list_all constructed es" by simp_all
  from And.IH cs have "\<forall>e\<in>set es. projr (nodes e) = {n. contains_node e n}"
    by (simp add: list_all_iff)
  then have "(\<Union>e\<in>set es. projr (nodes e)) = {n. contains_node (And es) n}"
    by (auto simp: list_ex_iff)
  then show ?case
    by (simp only: nodes_of_children(2) [OF ne cs])
next
  case (Choose k es)
  then have cs: "list_all constructed es" and "1 \<le> k" "k \<le> int (length es)" by simp_all
  then have ne: "es \<noteq> []" by auto
  from Choose.IH cs have "\<forall>e\<in>set es. projr (nodes e) = {n. contains_node e n}"
    by (simp add: list_all_iff)
  then have "(\<Union>e\<in>set es. projr (nodes e)) = {n. contains_node (Choose k es) n}"
    by (auto simp: list_ex_iff)
  then show ?case
    by (simp only: nodes_of_children(3) [OF ne cs])
qed

text \<open>
  C5, amended. A \<open>Node\<close> is equal to itself only: two distinct \<open>Node\<close> objects carrying
  the same identity \<open>x\<close> are not equal, so for every expression built by the
  constructors that contains both, \<open>nodes()\<close> returns the set of the \<open>Node\<close> objects at
  its leaves, in which the two are two elements; they count as one only in the set of
  identities \<open>{n.x | n \<in> nodes()}\<close>.
\<close>

theorem nodes_compared_by_identity:
  assumes "constructed e" and "contains_node e a" and "contains_node e b"
    and "oid a \<noteq> oid b" and "node_x a = node_x b"
  shows "node_eq a a \<and> \<not> node_eq a b \<and>
         (\<exists>N. nodes e = Inr N \<and> N = {n. contains_node e n} \<and>
              {a, b} \<subseteq> N \<and> card {a, b} = 2 \<and>
              node_x ` {a, b} \<subseteq> node_x ` N \<and> card (node_x ` {a, b}) = 1)"
proof -
  have "a \<noteq> b" using assms(4) by auto
  moreover have "nodes e = Inr {n. contains_node e n}"
    using assms(1) by (rule nodes_are_leaves)
  ultimately show ?thesis
    using assms(2-5) by (auto simp: node_eq_def)
qed

theorem nodes_compared_by_identity_witness:
  "constructed (And [Node node_a, Choose 1 [Node node_b, Or [Node node_a2, Node node_c]]]) \<and>
   contains_node (And [Node node_a, Choose 1 [Node node_b, Or [Node node_a2, Node node_c]]])
     node_a \<and>
   contains_node (And [Node node_a, Choose 1 [Node node_b, Or [Node node_a2, Node node_c]]])
     node_a2 \<and>
   oid node_a \<noteq> oid node_a2 \<and> node_x node_a = node_x node_a2 \<and>
   node_eq node_a node_a \<and> \<not> node_eq node_a node_a2 \<and>
   (\<exists>N. nodes (And [Node node_a, Choose 1 [Node node_b, Or [Node node_a2, Node node_c]]])
          = Inr N \<and>
        {node_a, node_a2} \<subseteq> N \<and> card {node_a, node_a2} = 2 \<and>
        card (node_x ` {node_a, node_a2}) = 1)"
proof -
  have h: "constructed (And [Node node_a, Choose 1 [Node node_b, Or [Node node_a2, Node node_c]]])"
    "contains_node (And [Node node_a, Choose 1 [Node node_b, Or [Node node_a2, Node node_c]]])
       node_a"
    "contains_node (And [Node node_a, Choose 1 [Node node_b, Or [Node node_a2, Node node_c]]])
       node_a2"
    "oid node_a \<noteq> oid node_a2" "node_x node_a = node_x node_a2"
    by simp_all
  from nodes_compared_by_identity [OF h] h show ?thesis
    by blast
qed

section \<open>Canonical distributions\<close>

text \<open>When the mapping branch raises: the keys play no part.\<close>

lemma canonicalize_dict_raises_iff:
  "(\<exists>err. canonicalize_distribution (DDict d) = Inl err) \<longleftrightarrow>
     d = [] \<or> (\<exists>w\<in>set (map snd d). w < 0) \<or> sum_list (map snd d) = 0"
  by (auto simp: list_ex_iff Let_def)

text \<open>
  C6 fails on the code. The scalar branches reject a read fraction outside \<open>[0, 1]\<close>,
  but the mapping branch never looks at its keys: \<open>{2.0: 1.0}\<close>, and the pair
  sequence \<open>[(2.0, 1.0)]\<close> converted to it, are returned as distributions.
\<close>

theorem canonicalize_accepts_fraction_outside_unit_interval:
  "canonicalize_distribution (DDict [(2, 1)]) = Inr [(2, 1)] \<and>
   canonicalize_distribution (DList [(2, 1)]) = Inr [(2, 1)] \<and>
   canonicalize_distribution (DFloat 2) = Inl ValueError \<and>
   canonicalize_distribution (DInt 2) = Inl ValueError"
  by (simp add: dict_of_def)


section \<open>Load of a strategy\<close>

text \<open>
  What the two \<open>load\<close> methods compute when no lookup or division raises:
  \<open>Strategy.load\<close> the expected worst node load, \<open>ExplicitStrategy.load\<close> the worst node
  load at the mean read fraction.
\<close>

lemma py_max_Max: "vs \<noteq> [] \<Longrightarrow> py_max vs = Inr (Max (set vs))"
  by (cases vs) (simp_all add: Max.set_eq_fold [symmetric])

lemma load_fixed_worst:
  assumes "s_nodes s \<noteq> []"
    and "\<And>n. n \<in> set (s_nodes s) \<Longrightarrow> node_load_fixed s (node_x n) fr = Inr (nl n)"
  shows "load_fixed s fr = Inr (Max (nl ` set (s_nodes s)))"
proof -
  have "collect (map (\<lambda>n. node_load_fixed s (node_x n) fr) (s_nodes s)) = Inr (map nl (s_nodes s))"
    using assms(2) by (rule collect_map_ok)
  then show ?thesis
    using assms(1) by (simp add: load_fixed_def bind_e_def py_max_Max)
qed

lemma Strategy_load_expected_worst_case:
  assumes "\<And>fr w. (fr, w) \<in> set d \<Longrightarrow> load_fixed s fr = Inr (worst fr)"
  shows "Strategy_load s d = Inr (\<Sum>(fr, w)\<leftarrow>d. w * worst fr)"
proof -
  have "collect (map (\<lambda>(fr, weight). bind_e (load_fixed s fr) (\<lambda>l. Inr (weight * l))) d)
        = Inr (map (\<lambda>(fr, w). w * worst fr) d)"
    using assms by (intro collect_map_ok) (auto simp: bind_e_def)
  then show ?thesis
    by (simp add: Strategy_load_def bind_e_def)
qed

lemma ExplicitStrategy_load_worst_at_mean:
  assumes "canonicalize_distribution read_fraction = Inr d"
    and "es_nodes s \<noteq> []"
    and "\<And>n. n \<in> set (es_nodes s) \<Longrightarrow>
           es_node_load s (\<Sum>(f, w)\<leftarrow>d. f * w)
             (quorum_load (es_reads s) (es_read_weights s))
             (quorum_load (es_writes s) (es_write_weights s)) n = Inr (nl n)"
  shows "ExplicitStrategy_load s read_fraction = Inr (Max (nl ` set (es_nodes s)))"
proof -
  have "collect (map (es_node_load s (\<Sum>(f, w)\<leftarrow>d. f * w)
             (quorum_load (es_reads s) (es_read_weights s))
             (quorum_load (es_writes s) (es_write_weights s))) (es_nodes s))
        = Inr (map nl (es_nodes s))"
    using assms(3) by (rule collect_map_ok)
  then show ?thesis
    using assms(1,2) by (simp add: ExplicitStrategy_load_def bind_e_def py_max_Max Let_def)
qed


lemma read_load_example:
  "quorum_load majority_quorums [1, 0, 0] ''a'' = Some 1"
  "quorum_load majority_quorums [1, 0, 0] ''b'' = Some 1"
  "quorum_load majority_quorums [1, 0, 0] ''c'' = Some 0"
  by (simp_all add: quorum_load_def add_load_def)

lemma write_load_example:
  "quorum_load majority_quorums [0, 1/2, 1/2] ''a'' = Some (1/2)"
  "quorum_load majority_quorums [0, 1/2, 1/2] ''b'' = Some (1/2)"
  "quorum_load majority_quorums [0, 1/2, 1/2] ''c'' = Some 1"
  by (simp_all add: quorum_load_def add_load_def)

lemma load_dom_example:
  "''a'' \<in> dom (quorum_load majority_quorums [1, 0, 0])"
  "''b'' \<in> dom (quorum_load majority_quorums [1, 0, 0])"
  "''c'' \<in> dom (quorum_load majority_quorums [1, 0, 0])"
  "''a'' \<in> dom (quorum_load majority_quorums [0, 1/2, 1/2])"
  "''b'' \<in> dom (quorum_load majority_quorums [0, 1/2, 1/2])"
  "''c'' \<in> dom (quorum_load majority_quorums [0, 1/2, 1/2])"
  by (rule domI, rule read_load_example write_load_example)+

lemma capacity_example:
  "capacity_dict cap [node_a, node_b, node_c] ''a'' = Some (cap node_a)"
  "capacity_dict cap [node_a, node_b, node_c] ''b'' = Some (cap node_b)"
  "capacity_dict cap [node_a, node_b, node_c] ''c'' = Some (cap node_c)"
  by (simp_all add: capacity_dict_def)

lemma canonical_example:
  "canonicalize_distribution (DDict [(0, 1/2), (1, 1/2)]) = Inr [(0, 1/2), (1, 1/2)]"
  by (simp add: dict_of_def)

text \<open>
  C4 fails on \<open>ExplicitStrategy.load\<close> of quorums.py, which takes the maximum node load
  at the mean read fraction. For the majority of three with read weights \<open>(1, 0, 0)\<close>,
  write weights \<open>(0, 1/2, 1/2)\<close> and the distribution \<open>{0.0: 0.5, 1.0: 0.5}\<close>, the worst
  node load is \<open>1\<close> at either read fraction, so the expected worst-case load is \<open>1\<close>,
  which \<open>Strategy.load\<close> of strategy.py returns; \<open>ExplicitStrategy.load\<close> returns
  \<open>3/4\<close>, the worst load at the mean \<open>0.5\<close>.
\<close>

theorem explicit_strategy_load_at_mean_read_fraction:
  "ExplicitStrategy_load
     (ExplicitStrategy_init [node_a, node_b, node_c]
        majority_quorums [1, 0, 0] majority_quorums [0, 1/2, 1/2])
     (DDict [(0, 1/2), (1, 1/2)]) = Inr (3/4) \<and>
   Strategy_load
     (Strategy_init [node_a, node_b, node_c]
        majority_quorums [1, 0, 0] majority_quorums [0, 1/2, 1/2])
     [(0, 1/2), (1, 1/2)] = Inr 1"
proof
  show "ExplicitStrategy_load
     (ExplicitStrategy_init [node_a, node_b, node_c]
        majority_quorums [1, 0, 0] majority_quorums [0, 1/2, 1/2])
     (DDict [(0, 1/2), (1, 1/2)]) = Inr (3/4)"
    unfolding ExplicitStrategy_load_def canonical_example
    by (simp add: bind_e_def es_node_load_def ExplicitStrategy_init_def dict_get_def
        py_div_def load_dom_example read_load_example write_load_example capacity_example Let_def
        del: One_nat_def)
  show "Strategy_load
     (Strategy_init [node_a, node_b, node_c]
        majority_quorums [1, 0, 0] majority_quorums [0, 1/2, 1/2])
     [(0, 1/2), (1, 1/2)] = Inr 1"
    by (simp add: Strategy_load_def load_fixed_def node_load_fixed_def bind_e_def
        Strategy_init_def dict_get_def default_get_def py_div_def
        read_load_example write_load_example capacity_example Let_def
        del: One_nat_def)
qed


end
